theory Spec2Isabelle
  imports Main "HOL-Library.Multiset"
begin

section \<open>The Eytzinger array of \<^verbatim>\<open>eytzinger_array.hpp\<close>\<close>

text \<open>
  The header defines one class template, \<^verbatim>\<open>eytzinger_array<T, N, Compare>\<close>: a
  \<^verbatim>\<open>std::array<T, N>\<close> whose elements are stored in breadth-first (heap) order of an
  implicit binary search tree, together with the comparator. This theory embeds its
  constructor (\<^verbatim>\<open>make_eytzinger\<close>, \<^verbatim>\<open>breadth_first_copy\<close>) and \<^verbatim>\<open>find\<close>.

  Conventions of the embedding:
  \<^item> an array is a list, and \<open>N\<close> is its length;
  \<^item> \<^verbatim>\<open>unsigned long\<close> and \<^verbatim>\<open>size_t\<close> are 64 bits wide: a value is a natural number and
    every arithmetic result is reduced modulo \<open>2 ^ 64\<close>;
  \<^item> undefined behaviour of the source (a subscript outside the array, a shift by 64 or
    more, copying a cell that was never written) is an \<open>error\<close> value;
  \<^item> the loop of \<^verbatim>\<open>find\<close> and the recursion of \<^verbatim>\<open>breadth_first_copy\<close> are partial
    functions into \<open>option\<close>: \<open>None\<close> is a run that does not return;
  \<^item> an iterator is its offset from \<^verbatim>\<open>cbegin()\<close>, an integer.
\<close>

subsection \<open>Machine arithmetic\<close>

datatype error = OutOfRange | ShiftTooWide | Indeterminate

definition ulong :: "nat \<Rightarrow> nat" where
  "ulong n = n mod 2 ^ 64"

text \<open>\<^verbatim>\<open>~k\<close> on 64 bits.\<close>

definition bit_not :: "nat \<Rightarrow> nat" where
  "bit_not k = 2 ^ 64 - 1 - ulong k"

text \<open>
  \<^verbatim>\<open>__builtin_ffsl(x)\<close>: one plus the index of the least significant 1-bit of \<open>x\<close>,
  and zero when \<open>x\<close> is zero.
\<close>

function builtin_ffsl :: "nat \<Rightarrow> nat" where
  "builtin_ffsl x = (if x = 0 then 0 else if odd x then 1 else Suc (builtin_ffsl (x div 2)))"
  by pat_completeness auto
termination
  by (relation "measure id") auto

text \<open>\<^verbatim>\<open>operator[]\<close> of \<^verbatim>\<open>std::array\<close>: no bounds check, undefined outside \<open>[0, N)\<close>.\<close>

definition subscript :: "'a list \<Rightarrow> nat \<Rightarrow> error + 'a" where
  "subscript a i = (if i < length a then Inr (a ! i) else Inl OutOfRange)"

subsection \<open>The container\<close>

record 'a eytzinger_array =
  compare :: "'a \<Rightarrow> 'a \<Rightarrow> bool"
  array :: "'a list"

definition size_ea :: "'a eytzinger_array \<Rightarrow> nat" where
  "size_ea c = length (array c)"

definition begin_ea :: "'a eytzinger_array \<Rightarrow> int" where
  "begin_ea c = 0"

definition end_ea :: "'a eytzinger_array \<Rightarrow> int" where
  "end_ea c = int (size_ea c)"

subsection \<open>\<^verbatim>\<open>find\<close>\<close>

text \<open>
  The descent loop \<^verbatim>\<open>while (k <= N) k = 2 * k + Compare::operator()(operator[](k - 1), value)\<close>,
  started at \<open>k\<close>. It returns the exit value of \<open>k\<close>.
\<close>

partial_function (option) find_loop ::
  "'a eytzinger_array \<Rightarrow> 'a \<Rightarrow> nat \<Rightarrow> (error + nat) option" where
  "find_loop c v k =
     (if k \<le> size_ea c then
        (case subscript (array c) (ulong (k + 2 ^ 64 - 1)) of
           Inl e \<Rightarrow> Some (Inl e)
         | Inr x \<Rightarrow> find_loop c v (ulong (2 * k + (if compare c x v then 1 else 0))))
      else Some (Inr k))"

text \<open>The value of \<open>k\<close> after \<^verbatim>\<open>k >>= __builtin_ffsl(~k)\<close>: the corrected index.\<close>

definition find_index :: "'a eytzinger_array \<Rightarrow> 'a \<Rightarrow> (error + nat) option" where
  "find_index c v =
     Option.bind (find_loop c v 1)
       (\<lambda>r. case r of
          Inl e \<Rightarrow> Some (Inl e)
        | Inr k \<Rightarrow>
            (let s = builtin_ffsl (bit_not k)
             in if s < 64 then Some (Inr (k div 2 ^ s)) else Some (Inl ShiftTooWide)))"

text \<open>\<^verbatim>\<open>return cbegin() + k - 1\<close>, as an offset from \<^verbatim>\<open>cbegin()\<close>.\<close>

definition find_ea :: "'a eytzinger_array \<Rightarrow> 'a \<Rightarrow> (error + int) option" where
  "find_ea c v = map_option (map_sum id (\<lambda>k. begin_ea c + int k - 1)) (find_index c v)"

subsection \<open>Construction\<close>

text \<open>
  \<^verbatim>\<open>breadth_first_copy(in, out, i, k)\<close> returns the new \<open>i\<close>; the array \<open>out\<close> it writes
  through a reference is returned with it. A cell of \<open>out\<close> is \<open>None\<close> until it is written
  (\<^verbatim>\<open>std::array<T, N> result;\<close> is not initialised).
\<close>

partial_function (option) breadth_first_copy ::
  "'a list \<Rightarrow> 'a option list \<Rightarrow> nat \<Rightarrow> nat \<Rightarrow> (error + 'a option list \<times> nat) option" where
  "breadth_first_copy inp out i k =
     (if k \<le> length inp then
        Option.bind (breadth_first_copy inp out i (ulong (k * 2)))
          (\<lambda>r. case r of
             Inl e \<Rightarrow> Some (Inl e)
           | Inr (out1, i1) \<Rightarrow>
               (case subscript inp i1 of
                  Inl e \<Rightarrow> Some (Inl e)
                | Inr x \<Rightarrow>
                    if ulong (k + 2 ^ 64 - 1) < length out1 then
                      breadth_first_copy inp (out1[ulong (k + 2 ^ 64 - 1) := Some x])
                        (ulong (i1 + 1)) (ulong (k * 2 + 1))
                    else Some (Inl OutOfRange)))
      else Some (Inr (out, i)))"

text \<open>
  \<^verbatim>\<open>std::sort(arr.begin(), arr.end(), comp)\<close> belongs to the standard library, which
  fixes its result only up to the order of equivalent elements: the result is a
  permutation of the input in which no element is less than an earlier one. The model
  is insertion sort; the lemmas on the layout use that contract only.
\<close>

fun insert_sorted :: "('a \<Rightarrow> 'a \<Rightarrow> bool) \<Rightarrow> 'a \<Rightarrow> 'a list \<Rightarrow> 'a list" where
  "insert_sorted cmp x [] = [x]"
| "insert_sorted cmp x (y # ys) = (if cmp x y then x # y # ys else y # insert_sorted cmp x ys)"

definition std_sort :: "('a \<Rightarrow> 'a \<Rightarrow> bool) \<Rightarrow> 'a list \<Rightarrow> 'a list" where
  "std_sort cmp xs = foldr (insert_sorted cmp) xs []"

definition make_eytzinger :: "'a list \<Rightarrow> ('a \<Rightarrow> 'a \<Rightarrow> bool) \<Rightarrow> (error + 'a list) option" where
  "make_eytzinger arr cmp =
     (let sorted_arr = std_sort cmp arr;
          result = replicate (length arr) None
      in Option.bind (breadth_first_copy sorted_arr result 0 1)
           (\<lambda>r. case r of
              Inl e \<Rightarrow> Some (Inl e)
            | Inr (out, i) \<Rightarrow>
                if list_all (\<lambda>cell. cell \<noteq> None) out then Some (Inr (map the out))
                else Some (Inl Indeterminate)))"

text \<open>The constructor \<^verbatim>\<open>eytzinger_array(array arr, const Compare &comp = {})\<close>.\<close>

definition eytzinger_array :: "'a list \<Rightarrow> ('a \<Rightarrow> 'a \<Rightarrow> bool) \<Rightarrow> (error + 'a eytzinger_array) option" where
  "eytzinger_array arr cmp =
     map_option (map_sum id (\<lambda>layout. \<lparr>compare = cmp, array = layout\<rparr>)) (make_eytzinger arr cmp)"

subsection \<open>Notions of the specification\<close>

text \<open>
  A comparator is a strict weak order: irreflexive, transitive, and an element between
  two comparable ones is comparable with one of them. Two elements are equivalent when
  neither is less than the other.
\<close>

definition strict_weak_order :: "('a \<Rightarrow> 'a \<Rightarrow> bool) \<Rightarrow> bool" where
  "strict_weak_order cmp \<longleftrightarrow>
     (\<forall>x. \<not> cmp x x) \<and>
     (\<forall>x y z. cmp x y \<longrightarrow> cmp y z \<longrightarrow> cmp x z) \<and>
     (\<forall>x y z. cmp x z \<longrightarrow> cmp x y \<or> cmp y z)"

text \<open>
  The tree indices \<open>1 \<dots> N\<close> below node \<open>k\<close> in in-order: node \<open>k\<close> between its left
  subtree, rooted at \<open>2k\<close>, and its right subtree, rooted at \<open>2k + 1\<close>.
\<close>

function inorder_nodes :: "nat \<Rightarrow> nat \<Rightarrow> nat list" where
  "inorder_nodes N k =
     (if 1 \<le> k \<and> k \<le> N then inorder_nodes N (2 * k) @ [k] @ inorder_nodes N (2 * k + 1) else [])"
  by pat_completeness auto
termination
  by (relation "measure (\<lambda>(N, k). Suc N - k)") auto

text \<open>The in-order traversal of a layout: node \<open>k\<close> is buffer position \<open>k - 1\<close>.\<close>

definition inorder_traversal :: "'a list \<Rightarrow> 'a list" where
  "inorder_traversal a = map (\<lambda>k. a ! (k - 1)) (inorder_nodes (length a) 1)"

text \<open>The number of nodes that the in-order traversal of \<open>1 \<dots> N\<close> visits before node \<open>k\<close>.\<close>

definition inorder_rank :: "nat \<Rightarrow> nat \<Rightarrow> nat" where
  "inorder_rank N k = length (takeWhile (\<lambda>n. n \<noteq> k) (inorder_nodes N 1))"

text \<open>
  The descent of \<^verbatim>\<open>find\<close> on tree indices, remembering the last node at which it went
  left (to \<open>2k\<close>); \<open>l\<close> is that node so far, \<open>0\<close> when there is none.
\<close>

function last_left :: "'a eytzinger_array \<Rightarrow> 'a \<Rightarrow> nat \<Rightarrow> nat \<Rightarrow> nat" where
  "last_left c v k l =
     (if 1 \<le> k \<and> k \<le> size_ea c then
        (if compare c (array c ! (k - 1)) v then last_left c v (2 * k + 1) l
         else last_left c v (2 * k) k)
      else l)"
  by pat_completeness auto
termination
  by (relation "measure (\<lambda>(c, v, k, l). Suc (size_ea c) - k)") auto

text \<open>A position \<open>p\<close> holds a least stored element that is not less than \<open>v\<close>.\<close>

definition lower_bound_at :: "'a eytzinger_array \<Rightarrow> 'a \<Rightarrow> int \<Rightarrow> bool" where
  "lower_bound_at c v p \<longleftrightarrow>
     0 \<le> p \<and> p < int (size_ea c) \<and>
     \<not> compare c (array c ! nat p) v \<and>
     (\<forall>x \<in> set (array c). \<not> compare c x v \<longrightarrow> \<not> compare c x (array c ! nat p))"

subsection \<open>Auxiliary functions of the proofs\<close>

text \<open>The number of 1-bits at the low end of \<open>k\<close>.\<close>

function trailing_ones :: "nat \<Rightarrow> nat" where
  "trailing_ones k = (if odd k then Suc (trailing_ones (k div 2)) else 0)"
  by pat_completeness auto
termination
  by (relation "measure id") (auto elim: oddE)

text \<open>\<open>k\<close> without its trailing 1-bits and the 0-bit above them.\<close>

definition strip :: "nat \<Rightarrow> nat" where
  "strip k = k div 2 ^ Suc (trailing_ones k)"

text \<open>The descent loop on unbounded naturals.\<close>

function walk :: "'a eytzinger_array \<Rightarrow> 'a \<Rightarrow> nat \<Rightarrow> nat" where
  "walk c v k =
     (if 1 \<le> k \<and> k \<le> size_ea c then
        walk c v (2 * k + (if compare c (array c ! (k - 1)) v then 1 else 0))
      else k)"
  by pat_completeness auto
termination
  by (relation "measure (\<lambda>(c, v, k). Suc (size_ea c) - k)") auto

section \<open>Lemmas\<close>

subsection \<open>Bit arithmetic of the correction step, and the loop without wrap-around\<close>

declare builtin_ffsl.simps [simp del] trailing_ones.simps [simp del] walk.simps [simp del]
  last_left.simps [simp del] inorder_nodes.simps [simp del]

lemma ffsl_complement:
  "k < 2 ^ w - 1 \<Longrightarrow> builtin_ffsl (2 ^ w - 1 - k) = Suc (trailing_ones k)"
proof (induction w arbitrary: k)
  case 0
  then show ?case by simp
next
  case (Suc w)
  show ?case
  proof (cases "odd k")
    case False
    then have "odd (2 ^ Suc w - 1 - k)" using Suc.prems by auto
    moreover have "2 ^ Suc w - 1 - k \<noteq> 0" using Suc.prems by simp
    ultimately show ?thesis using False
      by (subst builtin_ffsl.simps, subst trailing_ones.simps) simp
  next
    case True
    then obtain j where j: "k = 2 * j + 1" by (auto elim: oddE)
    have jlt: "j < 2 ^ w - 1" using Suc.prems j by simp
    have eq: "2 ^ Suc w - 1 - k = 2 * (2 ^ w - 1 - j)" using j jlt by simp
    have "builtin_ffsl (2 * (2 ^ w - 1 - j)) = Suc (builtin_ffsl (2 ^ w - 1 - j))"
      using jlt by (subst builtin_ffsl.simps) simp
    then have "builtin_ffsl (2 ^ Suc w - 1 - k) = Suc (builtin_ffsl (2 ^ w - 1 - j))"
      by (simp only: eq)
    also have "\<dots> = Suc (Suc (trailing_ones j))" using Suc.IH [OF jlt] by simp
    also have "\<dots> = Suc (trailing_ones k)"
      using j by (subst (2) trailing_ones.simps) simp
    finally show ?thesis .
  qed
qed

lemma trailing_ones_less: "k < 2 ^ w - 1 \<Longrightarrow> trailing_ones k < w"
proof (induction w arbitrary: k)
  case 0
  then show ?case by simp
next
  case (Suc w)
  show ?case
  proof (cases "odd k")
    case False
    then show ?thesis by (subst trailing_ones.simps) simp
  next
    case True
    then obtain j where j: "k = 2 * j + 1" by (auto elim: oddE)
    have jlt: "j < 2 ^ w - 1" using Suc.prems j by simp
    show ?thesis using Suc.IH [OF jlt] j by (subst trailing_ones.simps) simp
  qed
qed

lemma strip_even: "strip (2 * k) = k"
  by (simp add: strip_def trailing_ones.simps [of "2 * k"])

lemma strip_odd: "strip (2 * k + 1) = strip k"
proof -
  have "trailing_ones (2 * k + 1) = Suc (trailing_ones k)"
    by (subst trailing_ones.simps) simp
  moreover have "(2 * k + 1) div (2 * m) = k div m" for m :: nat
    by (simp add: div_mult2_eq)
  from this [of "2 ^ Suc (trailing_ones k)"]
  have "(2 * k + 1) div 2 ^ Suc (Suc (trailing_ones k)) = k div 2 ^ Suc (trailing_ones k)"
    by (simp only: power_Suc)
  ultimately show ?thesis
    by (simp only: strip_def)
qed

lemma strip_one: "strip 1 = 0"
  using strip_odd [of 0] by (simp add: strip_def trailing_ones.simps [of 0])

lemma find_loop_walk:
  "size_ea c < 2 ^ 63 \<Longrightarrow> 1 \<le> k \<Longrightarrow> find_loop c v k = Some (Inr (walk c v k))"
proof (induction c v k rule: walk.induct)
  case (1 c v k)
  show ?case
  proof (cases "k \<le> size_ea c")
    case False
    then show ?thesis
      by (subst find_loop.simps, subst walk.simps) simp
  next
    case True
    let ?b = "if compare c (array c ! (k - 1)) v then 1 else 0 :: nat"
    have klt: "k < 2 ^ 63" using True "1.prems" by simp
    have idx: "ulong (k + 2 ^ 64 - 1) = k - 1"
      using klt "1.prems" by (simp add: ulong_def mod_if)
    have sub: "subscript (array c) (k - 1) = Inr (array c ! (k - 1))"
      using True "1.prems" by (simp add: subscript_def size_ea_def)
    have nxt: "ulong (2 * k + ?b) = 2 * k + ?b"
      using klt by (simp add: ulong_def)
    have "find_loop c v k = find_loop c v (2 * k + ?b)"
      by (subst find_loop.simps) (simp only: True idx sub nxt if_True sum.case)
    also have "\<dots> = Some (Inr (walk c v (2 * k + ?b)))"
      using "1.IH" True "1.prems" by simp
    also have "walk c v (2 * k + ?b) = walk c v k"
      using True "1.prems" by (subst (2) walk.simps) simp
    finally show ?thesis .
  qed
qed

lemma walk_exit:
  "1 \<le> k \<Longrightarrow> k \<le> 2 * size_ea c + 1 \<Longrightarrow>
   size_ea c < walk c v k \<and> walk c v k \<le> 2 * size_ea c + 1"
proof (induction c v k rule: walk.induct)
  case (1 c v k)
  show ?case
  proof (cases "k \<le> size_ea c")
    case False
    then show ?thesis using "1.prems" by (subst (1 2) walk.simps) simp
  next
    case True
    then show ?thesis using "1.IH" "1.prems"
      by (subst (1 2) walk.simps) (simp split: if_splits)
  qed
qed

lemma strip_walk: "1 \<le> k \<Longrightarrow> strip (walk c v k) = last_left c v k (strip k)"
proof (induction c v k rule: walk.induct)
  case (1 c v k)
  show ?case
  proof (cases "k \<le> size_ea c")
    case False
    then show ?thesis by (subst walk.simps, subst last_left.simps) simp
  next
    case True
    show ?thesis
    proof (cases "compare c (array c ! (k - 1)) v")
      case right: True
      have "strip (walk c v (2 * k + 1)) = last_left c v (2 * k + 1) (strip (2 * k + 1))"
        using "1.IH" True "1.prems" right by simp
      then show ?thesis using True "1.prems" right
        by (subst walk.simps, subst last_left.simps) (simp add: strip_odd del: One_nat_def)
    next
      case left: False
      have "strip (walk c v (2 * k)) = last_left c v (2 * k) (strip (2 * k))"
        using "1.IH" True "1.prems" left by simp
      then show ?thesis using True "1.prems" left
        by (subst walk.simps, subst last_left.simps) (simp add: strip_even)
    qed
  qed
qed

lemma find_index_last_left:
  assumes "Suc (size_ea c) < 2 ^ 62"
  shows "find_index c v = Some (Inr (last_left c v 1 0))"
proof -
  let ?r = "walk c v 1"
  have loop: "find_loop c v 1 = Some (Inr ?r)"
    using assms by (intro find_loop_walk) simp_all
  have "?r \<le> 2 * size_ea c + 1" using walk_exit [of 1 c v] by simp
  then have r63: "?r < 2 ^ 63 - 1" using assms by simp
  then have r64: "?r < 2 ^ 64 - 1" by simp
  have "bit_not ?r = 2 ^ 64 - 1 - ?r" using r64 by (simp add: bit_not_def ulong_def)
  then have s: "builtin_ffsl (bit_not ?r) = Suc (trailing_ones ?r)"
    using ffsl_complement [OF r64] by simp
  have lt: "Suc (trailing_ones ?r) < 64" using trailing_ones_less [OF r63] by simp
  have "find_index c v = Some (Inr (strip ?r))"
    using lt by (simp add: find_index_def loop Let_def s strip_def del: One_nat_def)
  then show ?thesis using strip_walk [of 1 c v] by (simp add: strip_one del: One_nat_def)
qed

subsection \<open>The descent finds the first in-order node that is not less than the target\<close>

lemma find_append_case:
  "List.find P (xs @ ys) = (case List.find P xs of None \<Rightarrow> List.find P ys | Some x \<Rightarrow> Some x)"
  by (induction xs) simp_all

lemma inorder_nodes_out: "k = 0 \<or> N < k \<Longrightarrow> inorder_nodes N k = []"
  by (subst inorder_nodes.simps) auto

lemma inorder_nodes_in:
  "1 \<le> k \<Longrightarrow> k \<le> N \<Longrightarrow>
   inorder_nodes N k = inorder_nodes N (2 * k) @ [k] @ inorder_nodes N (2 * k + 1)"
  by (subst inorder_nodes.simps) simp

lemma last_left_out: "k = 0 \<or> size_ea c < k \<Longrightarrow> last_left c v k l = l"
  by (subst last_left.simps) auto

lemma last_left_find:
  assumes nt: "\<forall>x y z. compare c x z \<longrightarrow> compare c x y \<or> compare c y z"
    and srt: "sorted_wrt (\<lambda>x y. \<not> compare c y x)
                (map (\<lambda>n. array c ! (n - 1)) (inorder_nodes (size_ea c) k))"
  shows "last_left c v k l =
           (case List.find (\<lambda>n. \<not> compare c (array c ! (n - 1)) v) (inorder_nodes (size_ea c) k) of
              None \<Rightarrow> l | Some n \<Rightarrow> n)"
  using nt srt
proof (induction c v k l rule: last_left.induct)
  case (1 c v k l)
  let ?N = "size_ea c"
  let ?val = "\<lambda>n. array c ! (n - 1)"
  let ?P = "\<lambda>n. \<not> compare c (?val n) v"
  note nt = "1.prems"(1) and srt = "1.prems"(2)
  show ?case
  proof (cases "1 \<le> k \<and> k \<le> ?N")
    case False
    then have "k = 0 \<or> ?N < k" by auto
    then show ?thesis
      by (simp add: last_left_out inorder_nodes_out)
  next
    case True
    let ?L = "inorder_nodes ?N (2 * k)"
    let ?R = "inorder_nodes ?N (2 * k + 1)"
    have nodes: "inorder_nodes ?N k = ?L @ [k] @ ?R"
      using True by (simp add: inorder_nodes_in)
    have sL: "sorted_wrt (\<lambda>x y. \<not> compare c y x) (map ?val ?L)"
      and sR: "sorted_wrt (\<lambda>x y. \<not> compare c y x) (map ?val ?R)"
      and below: "\<forall>n \<in> set ?L. \<not> compare c (?val k) (?val n)"
      using srt unfolding nodes by (auto simp: sorted_wrt_append)
    show ?thesis
    proof (cases "compare c (?val k) v")
      case right: True
      have "\<forall>n \<in> set ?L. compare c (?val n) v"
        using below right nt by blast
      then have "List.find ?P ?L = None"
        by (simp add: find_None_iff)
      then have "List.find ?P (inorder_nodes ?N k) = List.find ?P ?R"
        using right unfolding nodes by (simp add: find_append_case)
      moreover have "last_left c v k l = last_left c v (2 * k + 1) l"
        using True right by (simp add: last_left.simps [of c v k l])
      ultimately show ?thesis
        using "1.IH"(1) [OF True right nt sR] by simp
    next
      case left: False
      have "List.find ?P (inorder_nodes ?N k) =
              (case List.find ?P ?L of None \<Rightarrow> Some k | Some n \<Rightarrow> Some n)"
        using left unfolding nodes by (simp add: find_append_case split: option.splits)
      moreover have "last_left c v k l = last_left c v (2 * k) k"
        using True left by (simp add: last_left.simps [of c v k l])
      ultimately show ?thesis
        using "1.IH"(2) [OF True left nt sL] by (simp split: option.splits)
    qed
  qed
qed

subsection \<open>The nodes of a subtree\<close>

lemma div_pow_add: "n div 2 ^ (d + j) = (n div 2 ^ d) div 2 ^ j" for n :: nat
  by (simp add: power_add div_mult2_eq)

lemma div_pow_Suc: "n div 2 ^ Suc d = (n div 2 ^ d) div 2" for n :: nat
  using div_pow_add [of n d 1] by simp

lemma div_pow_Suc2: "n div 2 ^ Suc d = (n div 2) div 2 ^ d" for n :: nat
  using div_pow_add [of n 1 d] by simp

lemma subtree_disjoint:
  fixes k n :: nat
  assumes "1 \<le> k" "n div 2 ^ d = 2 * k" "n div 2 ^ e = 2 * k + 1"
  shows False
proof (cases "d \<le> e")
  case True
  then obtain j where e: "e = d + j" by (auto simp: le_iff_add)
  have "n div 2 ^ e = (2 * k) div 2 ^ j"
    using assms(2) by (simp only: e div_pow_add)
  moreover have "(2 * k) div 2 ^ j \<le> 2 * k" by (rule div_le_dividend)
  ultimately show False using assms(3) by simp
next
  case False
  then obtain j where d: "d = e + Suc j" by (metis less_imp_Suc_add not_le add_Suc_right)
  have "n div 2 ^ d = ((2 * k + 1) div 2) div 2 ^ j"
    using assms(3) by (simp only: d div_pow_add div_pow_Suc2)
  also have "\<dots> = k div 2 ^ j" by simp
  also have "\<dots> \<le> k" by (rule div_le_dividend)
  finally show False using assms(1,2) by simp
qed

lemma inorder_nodes_mem:
  "n \<in> set (inorder_nodes N k) \<Longrightarrow> 1 \<le> n \<and> n \<le> N \<and> (\<exists>d. n div 2 ^ d = k)"
proof (induction N k rule: inorder_nodes.induct)
  case (1 N k)
  show ?case
  proof (cases "1 \<le> k \<and> k \<le> N")
    case False
    then have "k = 0 \<or> N < k" by auto
    then show ?thesis using "1.prems" by (simp add: inorder_nodes_out)
  next
    case True
    then have "n \<in> set (inorder_nodes N (2 * k)) \<or> n = k \<or> n \<in> set (inorder_nodes N (2 * k + 1))"
      using "1.prems" by (auto simp: inorder_nodes_in)
    then show ?thesis
    proof (elim disjE)
      assume "n \<in> set (inorder_nodes N (2 * k))"
      then obtain d where "1 \<le> n" "n \<le> N" "n div 2 ^ d = 2 * k"
        using "1.IH"(1) [OF True] by blast
      then have "n div 2 ^ Suc d = k" using div_pow_Suc [of n d] by simp
      then show ?thesis using \<open>1 \<le> n\<close> \<open>n \<le> N\<close> by blast
    next
      assume "n = k"
      then show ?thesis using True by (intro conjI exI [of _ 0]) auto
    next
      assume "n \<in> set (inorder_nodes N (2 * k + 1))"
      then obtain d where "1 \<le> n" "n \<le> N" "n div 2 ^ d = 2 * k + 1"
        using "1.IH"(2) [OF True] by blast
      then have "n div 2 ^ Suc d = k" using div_pow_Suc [of n d] by simp
      then show ?thesis using \<open>1 \<le> n\<close> \<open>n \<le> N\<close> by blast
    qed
  qed
qed

lemma inorder_nodes_not_root:
  assumes "1 \<le> k"
  shows "k \<notin> set (inorder_nodes N (2 * k))" "k \<notin> set (inorder_nodes N (2 * k + 1))"
proof -
  have le: "k div 2 ^ d \<le> k" for d by (rule div_le_dividend)
  show "k \<notin> set (inorder_nodes N (2 * k))"
  proof
    assume "k \<in> set (inorder_nodes N (2 * k))"
    then obtain d where "k div 2 ^ d = 2 * k" using inorder_nodes_mem by blast
    then show False using le [of d] assms by simp
  qed
  show "k \<notin> set (inorder_nodes N (2 * k + 1))"
  proof
    assume "k \<in> set (inorder_nodes N (2 * k + 1))"
    then obtain d where "k div 2 ^ d = 2 * k + 1" using inorder_nodes_mem by blast
    then show False using le [of d] by simp
  qed
qed

lemma inorder_nodes_disjoint:
  assumes "1 \<le> k"
  shows "set (inorder_nodes N (2 * k)) \<inter> set (inorder_nodes N (2 * k + 1)) = {}"
proof (rule ccontr)
  assume "\<not> ?thesis"
  then obtain n where "n \<in> set (inorder_nodes N (2 * k))" "n \<in> set (inorder_nodes N (2 * k + 1))"
    by blast
  then obtain d e where "n div 2 ^ d = 2 * k" "n div 2 ^ e = 2 * k + 1"
    using inorder_nodes_mem by blast
  then show False using subtree_disjoint [OF assms] by blast
qed

lemma inorder_nodes_distinct: "distinct (inorder_nodes N k)"
proof (induction N k rule: inorder_nodes.induct)
  case (1 N k)
  show ?case
  proof (cases "1 \<le> k \<and> k \<le> N")
    case False
    then have "k = 0 \<or> N < k" by auto
    then show ?thesis by (simp add: inorder_nodes_out)
  next
    case True
    then show ?thesis
      using "1.IH" inorder_nodes_not_root [of k N] inorder_nodes_disjoint [of k N]
      by (auto simp: inorder_nodes_in)
  qed
qed

lemma inorder_nodes_desc:
  "1 \<le> k \<Longrightarrow> n \<le> N \<Longrightarrow> n div 2 ^ d = k \<Longrightarrow> n \<in> set (inorder_nodes N k)"
proof (induction d arbitrary: k)
  case 0
  then show ?case by (simp add: inorder_nodes_in)
next
  case (Suc d)
  let ?m = "n div 2 ^ d"
  have half: "?m div 2 = k" using Suc.prems(3) by (simp only: div_pow_Suc)
  then have m: "?m = 2 * k \<or> ?m = 2 * k + 1" by auto
  have "k \<le> ?m" using m by auto
  also have "?m \<le> n" by (rule div_le_dividend)
  also note Suc.prems(2)
  finally have kN: "k \<le> N" .
  have "1 \<le> ?m" using m Suc.prems(1) by auto
  then have "n \<in> set (inorder_nodes N ?m)" using Suc.IH Suc.prems(2) by blast
  then show ?case using m Suc.prems(1) kN by (auto simp: inorder_nodes_in)
qed

lemma root_ancestor: "1 \<le> n \<Longrightarrow> \<exists>d. n div 2 ^ d = (1::nat)"
proof (induction n rule: less_induct)
  case (less n)
  show ?case
  proof (cases "n = 1")
    case True
    then have "n div 2 ^ 0 = 1" by simp
    then show ?thesis by blast
  next
    case False
    then have "1 \<le> n div 2" "n div 2 < n" using less.prems by auto
    then obtain d where "(n div 2) div 2 ^ d = 1" using less.IH by blast
    then have "n div 2 ^ Suc d = 1" by (simp only: div_pow_Suc2)
    then show ?thesis by blast
  qed
qed

lemma inorder_nodes_set: "set (inorder_nodes N 1) = {1..N}"
proof (intro equalityI subsetI)
  fix n assume "n \<in> set (inorder_nodes N 1)"
  then show "n \<in> {1..N}" using inorder_nodes_mem by auto
next
  fix n assume "n \<in> {1..N}"
  then have "1 \<le> n" "n \<le> N" by auto
  then show "n \<in> set (inorder_nodes N 1)"
    using root_ancestor [of n] inorder_nodes_desc [of 1 n N] by auto
qed

lemma inorder_nodes_length: "length (inorder_nodes N 1) = N"
proof -
  have "length (inorder_nodes N 1) = card (set (inorder_nodes N 1))"
    using inorder_nodes_distinct by (simp add: distinct_card)
  then show ?thesis unfolding inorder_nodes_set by simp
qed

subsection \<open>\<^verbatim>\<open>breadth_first_copy\<close> writes a subtree in in-order\<close>

lemma take_drop_split:
  assumes "i + a < length xs"
  shows "take (a + 1 + b) (drop i xs) =
           take a (drop i xs) @ [xs ! (i + a)] @ take b (drop (i + a + 1) xs)"
proof -
  have "take (a + (1 + b)) (drop i xs) = take a (drop i xs) @ take (1 + b) (drop a (drop i xs))"
    by (rule take_add)
  moreover have "drop a (drop i xs) = xs ! (i + a) # drop (i + a + 1) xs"
    using assms by (simp add: Cons_nth_drop_Suc add.commute)
  ultimately show ?thesis by (simp add: add.assoc)
qed

lemma breadth_first_copy_subtree:
  assumes "N = length inp" "N < 2 ^ 63" "1 \<le> k" "length out = N"
    and "i + length (inorder_nodes N k) \<le> N"
  shows "\<exists>out'. breadth_first_copy inp out i k = Some (Inr (out', i + length (inorder_nodes N k)))
           \<and> length out' = N
           \<and> map (\<lambda>n. out' ! (n - 1)) (inorder_nodes N k) =
               map Some (take (length (inorder_nodes N k)) (drop i inp))
           \<and> (\<forall>p < N. Suc p \<notin> set (inorder_nodes N k) \<longrightarrow> out' ! p = out ! p)"
  using assms
proof (induction N k arbitrary: out i rule: inorder_nodes.induct)
  case (1 N k)
  note N = "1.prems"(1) and small = "1.prems"(2) and k1 = "1.prems"(3)
    and len = "1.prems"(4) and room = "1.prems"(5)
  show ?case
  proof (cases "k \<le> N")
    case False
    then have "inorder_nodes N k = []" by (simp add: inorder_nodes_out)
    moreover have "breadth_first_copy inp out i k = Some (Inr (out, i))"
      using False N by (subst breadth_first_copy.simps) simp
    ultimately show ?thesis using len by simp
  next
    case True
    let ?L = "inorder_nodes N (2 * k)"
    let ?R = "inorder_nodes N (2 * k + 1)"
    have inside: "1 \<le> k \<and> k \<le> N" using k1 True by simp
    have nodes: "inorder_nodes N k = ?L @ [k] @ ?R"
      using k1 True by (rule inorder_nodes_in)
    have room': "i + length ?L + 1 + length ?R \<le> N"
      using room by (simp add: nodes)
    have k63: "k < 2 ^ 63" using True small by simp
    have w1: "ulong (k * 2) = 2 * k" and w2: "ulong (k * 2 + 1) = 2 * k + 1"
      and w3: "ulong (k + 2 ^ 64 - 1) = k - 1"
      using k63 k1 by (simp_all add: ulong_def mod_if)
    obtain out1 where
      call1: "breadth_first_copy inp out i (2 * k) = Some (Inr (out1, i + length ?L))"
      and len1: "length out1 = N"
      and vals1: "map (\<lambda>n. out1 ! (n - 1)) ?L = map Some (take (length ?L) (drop i inp))"
      and frame1: "\<forall>p < N. Suc p \<notin> set ?L \<longrightarrow> out1 ! p = out ! p"
      using "1.IH"(1) [OF inside N small _ len, of i] room' k1 by auto
    let ?i1 = "i + length ?L"
    let ?out2 = "out1[k - 1 := Some (inp ! ?i1)]"
    have i1: "?i1 < N" using room' by simp
    have i1': "?i1 < length inp" using i1 N by simp
    have sub: "subscript inp ?i1 = Inr (inp ! ?i1)"
      using i1 N by (simp add: subscript_def)
    have w4: "ulong (?i1 + 1) = ?i1 + 1"
      using i1 small by (simp add: ulong_def)
    have len2: "length ?out2 = N" using len1 by simp
    obtain out3 where
      call2: "breadth_first_copy inp ?out2 (?i1 + 1) (2 * k + 1) =
                Some (Inr (out3, ?i1 + 1 + length ?R))"
      and len3: "length out3 = N"
      and vals3: "map (\<lambda>n. out3 ! (n - 1)) ?R = map Some (take (length ?R) (drop (?i1 + 1) inp))"
      and frame3: "\<forall>p < N. Suc p \<notin> set ?R \<longrightarrow> out3 ! p = ?out2 ! p"
      using "1.IH"(2) [OF inside N small _ len2, of "?i1 + 1"] room' by auto
    have kle: "k \<le> length inp" and cell: "k - 1 < length out1"
      using True N len1 k1 by auto
    have run: "breadth_first_copy inp out i k = Some (Inr (out3, i + length (inorder_nodes N k)))"
      by (subst breadth_first_copy.simps)
        (simp only: kle cell if_True w1 w2 w3 w4 call1 sub call2 nodes bind.bind_lunit
           sum.case prod.case length_append list.size, simp)
    have kR: "k \<notin> set ?R" and kL: "k \<notin> set ?L"
      using inorder_nodes_not_root [OF k1] by auto
    have disj: "set ?L \<inter> set ?R = {}" using inorder_nodes_disjoint [OF k1] .
    have at_k: "out3 ! (k - 1) = Some (inp ! ?i1)"
    proof -
      have "k - 1 < N" "Suc (k - 1) = k" using inside by auto
      then show ?thesis using frame3 kR len1 by simp
    qed
    have at_L: "out3 ! (n - 1) = out1 ! (n - 1)" if "n \<in> set ?L" for n
    proof -
      have "1 \<le> n" "n \<le> N" using inorder_nodes_mem [OF that] by auto
      then have "n - 1 < N" "Suc (n - 1) = n" by auto
      moreover have "n \<notin> set ?R" "n \<noteq> k" using that disj kL by auto
      ultimately have "out3 ! (n - 1) = ?out2 ! (n - 1)" using frame3 by simp
      also have "\<dots> = out1 ! (n - 1)"
        using \<open>n \<noteq> k\<close> \<open>1 \<le> n\<close> k1 by (simp add: nth_list_update)
      finally show ?thesis .
    qed
    have "map (\<lambda>n. out3 ! (n - 1)) (inorder_nodes N k) =
            map (\<lambda>n. out1 ! (n - 1)) ?L @ [Some (inp ! ?i1)] @ map (\<lambda>n. out3 ! (n - 1)) ?R"
      using at_k at_L by (simp add: nodes)
    also have "\<dots> = map Some (take (length ?L + 1 + length ?R) (drop i inp))"
      by (simp only: vals1 vals3 take_drop_split [OF i1'] map_append list.map)
    finally have vals: "map (\<lambda>n. out3 ! (n - 1)) (inorder_nodes N k) =
        map Some (take (length (inorder_nodes N k)) (drop i inp))"
      by (simp add: nodes)
    have frame: "\<forall>p < N. Suc p \<notin> set (inorder_nodes N k) \<longrightarrow> out3 ! p = out ! p"
    proof (intro allI impI)
      fix p assume p: "p < N" and out: "Suc p \<notin> set (inorder_nodes N k)"
      then have "Suc p \<notin> set ?L" "Suc p \<notin> set ?R" "Suc p \<noteq> k" by (auto simp: nodes)
      then have "out3 ! p = ?out2 ! p" "k - 1 \<noteq> p" "out1 ! p = out ! p"
        using frame3 frame1 p k1 by auto
      then show "out3 ! p = out ! p" by simp
    qed
    show ?thesis using run len3 vals frame by blast
  qed
qed

subsection \<open>Sorting and the constructed layout\<close>

lemma mset_insert_sorted: "mset (insert_sorted cmp x ys) = add_mset x (mset ys)"
  by (induction ys) simp_all

lemma mset_std_sort: "mset (std_sort cmp xs) = mset xs"
  by (induction xs) (simp_all add: std_sort_def mset_insert_sorted)

lemma length_insert_sorted: "length (insert_sorted cmp x ys) = Suc (length ys)"
  by (induction ys) simp_all

lemma length_std_sort: "length (std_sort cmp xs) = length xs"
  by (induction xs) (simp_all add: std_sort_def length_insert_sorted)

lemma set_insert_sorted: "set (insert_sorted cmp x ys) = insert x (set ys)"
  by (induction ys) auto

lemma sorted_insert_sorted:
  assumes "strict_weak_order cmp" "sorted_wrt (\<lambda>x y. \<not> cmp y x) ys"
  shows "sorted_wrt (\<lambda>x y. \<not> cmp y x) (insert_sorted cmp x ys)"
  using assms(2)
proof (induction ys)
  case Nil
  then show ?case by simp
next
  case (Cons y ys)
  have irr: "\<not> cmp a a" and trans: "cmp a b \<Longrightarrow> cmp b d \<Longrightarrow> cmp a d" for a b d
    using assms(1) unfolding strict_weak_order_def by blast+
  show ?case
  proof (cases "cmp x y")
    case True
    have "\<not> cmp y x" using True irr trans by blast
    moreover have "\<forall>z \<in> set ys. \<not> cmp z x" using True Cons.prems trans by auto
    ultimately show ?thesis using True Cons.prems by simp
  next
    case False
    then show ?thesis using Cons by (auto simp: set_insert_sorted)
  qed
qed

lemma sorted_std_sort:
  "strict_weak_order cmp \<Longrightarrow> sorted_wrt (\<lambda>x y. \<not> cmp y x) (std_sort cmp xs)"
proof (induction xs)
  case Nil
  then show ?case by (simp add: std_sort_def)
next
  case (Cons x xs)
  then show ?case using sorted_insert_sorted [of cmp "std_sort cmp xs" x]
    by (simp add: std_sort_def)
qed

lemma sorted_unique:
  assumes "strict_weak_order cmp"
  shows "sorted_wrt (\<lambda>x y. \<not> cmp y x) xs \<Longrightarrow> sorted_wrt (\<lambda>x y. \<not> cmp y x) ys \<Longrightarrow>
         mset xs = mset ys \<Longrightarrow>
         \<forall>x \<in> set xs. \<forall>y \<in> set xs. \<not> cmp x y \<and> \<not> cmp y x \<longrightarrow> x = y \<Longrightarrow> xs = ys"
proof (induction xs arbitrary: ys)
  case Nil
  then show ?case by simp
next
  case (Cons x xs)
  from Cons.prems(3) obtain y ys' where ys: "ys = y # ys'" by (cases ys) auto
  have irr: "\<not> cmp a a" for a
    using assms unfolding strict_weak_order_def by blast
  have mem: "x \<in> set ys" "y \<in> set (x # xs)"
    using Cons.prems(3) ys by (metis list.set_intros(1) mset_eq_setD)+
  then have "\<not> cmp x y" "\<not> cmp y x"
    using Cons.prems(1,2) irr unfolding ys by auto
  then have "x = y" using Cons.prems(4) mem(2) by auto
  moreover have "\<forall>a \<in> set xs. \<forall>b \<in> set xs. \<not> cmp a b \<and> \<not> cmp b a \<longrightarrow> a = b"
    using Cons.prems(4) by simp
  ultimately show ?case using Cons.IH [of ys'] Cons.prems(1,2,3) ys by simp
qed

lemma std_sort_permutation:
  assumes "strict_weak_order cmp" "mset xs = mset ys"
    and "\<forall>x \<in> set xs. \<forall>y \<in> set xs. \<not> cmp x y \<and> \<not> cmp y x \<longrightarrow> x = y"
  shows "std_sort cmp xs = std_sort cmp ys"
proof -
  have "sorted_wrt (\<lambda>x y. \<not> cmp y x) (std_sort cmp xs)"
    "sorted_wrt (\<lambda>x y. \<not> cmp y x) (std_sort cmp ys)"
    using assms(1) by (rule sorted_std_sort)+
  moreover have "set (std_sort cmp xs) = set xs"
    using mset_std_sort [of cmp xs] by (rule mset_eq_setD)
  ultimately show ?thesis
    using assms(2,3) by (intro sorted_unique [OF assms(1)]) (simp_all add: mset_std_sort)
qed

lemma mset_inorder_traversal: "mset (inorder_traversal a) = mset a"
proof -
  let ?N = "length a"
  let ?f = "\<lambda>k. a ! (k - 1)"
  have "mset (inorder_nodes ?N 1) = mset [1..<Suc ?N]"
  proof (rule iffD1 [OF set_eq_iff_mset_eq_distinct])
    show "distinct (inorder_nodes ?N 1)" by (rule inorder_nodes_distinct)
    show "distinct [1..<Suc ?N]" by simp
    show "set (inorder_nodes ?N 1) = set [1..<Suc ?N]"
      unfolding inorder_nodes_set by auto
  qed
  then have "mset (map ?f (inorder_nodes ?N 1)) = mset (map ?f [1..<Suc ?N])"
    by (simp only: mset_map)
  moreover have "[1..<Suc ?N] = map Suc [0..<?N]"
    by (simp only: map_Suc_upt One_nat_def)
  moreover have "map ?f (map Suc [0..<?N]) = map (\<lambda>i. a ! i) [0..<?N]"
    by simp
  ultimately show ?thesis
    by (simp only: inorder_traversal_def map_nth)
qed

lemma make_eytzinger_layout:
  assumes "length arr < 2 ^ 63"
  shows "\<exists>layout. make_eytzinger arr cmp = Some (Inr layout) \<and> length layout = length arr
           \<and> inorder_traversal layout = std_sort cmp arr"
proof -
  let ?N = "length arr"
  let ?s = "std_sort cmp arr"
  let ?nodes = "inorder_nodes ?N 1"
  have lens: "?N = length ?s" by (simp add: length_std_sort)
  obtain out where run: "breadth_first_copy ?s (replicate ?N None) 0 1 = Some (Inr (out, ?N))"
    and len: "length out = ?N"
    and vals: "map (\<lambda>n. out ! (n - 1)) ?nodes = map Some ?s"
    using breadth_first_copy_subtree [OF lens assms, of 1 "replicate ?N None" 0]
    by (auto simp: inorder_nodes_length length_std_sort simp del: One_nat_def)
  have cell: "out ! p = Some (the (out ! p))" if "p < ?N" for p
  proof -
    have "Suc p \<in> set ?nodes" using that by (simp add: inorder_nodes_set del: One_nat_def)
    then have "out ! (Suc p - 1) \<in> set (map (\<lambda>n. out ! (n - 1)) ?nodes)"
      by (intro image_eqI [where x = "Suc p"] | simp only: set_map)+
    then show ?thesis unfolding vals by auto
  qed
  have "list_all (\<lambda>cell. cell \<noteq> None) out"
    unfolding list_all_length using cell len by (metis option.distinct(1))
  then have mk: "make_eytzinger arr cmp = Some (Inr (map the out))"
    by (simp add: make_eytzinger_def Let_def run del: One_nat_def)
  have "inorder_traversal (map the out) = map the (map (\<lambda>n. out ! (n - 1)) ?nodes)"
  proof -
    have "n - 1 < length out" if "n \<in> set ?nodes" for n
      using inorder_nodes_mem [OF that] len by auto
    then show ?thesis by (simp add: inorder_traversal_def len del: One_nat_def)
  qed
  also have "\<dots> = ?s" unfolding vals by (simp add: comp_def)
  finally show ?thesis using mk len by simp
qed

subsection \<open>Searching a constructed container\<close>

lemma nth_as_node:
  assumes "x \<in> set a"
  shows "\<exists>j < length (inorder_nodes (length a) 1). x = a ! (inorder_nodes (length a) 1 ! j - 1)"
proof -
  from assms obtain p where p: "p < length a" "x = a ! p" by (auto simp: in_set_conv_nth)
  then have "Suc p \<in> set (inorder_nodes (length a) 1)"
    unfolding inorder_nodes_set by simp
  then obtain j where "j < length (inorder_nodes (length a) 1)" "inorder_nodes (length a) 1 ! j = Suc p"
    by (auto simp: in_set_conv_nth)
  then show ?thesis using p by auto
qed

lemma search_miss:
  assumes "strict_weak_order (compare c)"
    and "sorted_wrt (\<lambda>x y. \<not> compare c y x) (inorder_traversal (array c))"
  shows "last_left c v 1 0 = 0 \<longleftrightarrow> (\<forall>x \<in> set (array c). compare c x v)"
    and "last_left c v 1 0 \<noteq> 0 \<Longrightarrow> lower_bound_at c v (int (last_left c v 1 0) - 1)"
proof -
  let ?a = "array c"
  let ?N = "size_ea c"
  let ?nodes = "inorder_nodes ?N 1"
  let ?val = "\<lambda>n. ?a ! (n - 1)"
  let ?P = "\<lambda>n. \<not> compare c (?val n) v"
  have irr: "\<not> compare c x x" for x
    using assms(1) unfolding strict_weak_order_def by blast
  have nt: "\<forall>x y z. compare c x z \<longrightarrow> compare c x y \<or> compare c y z"
    using assms(1) unfolding strict_weak_order_def by blast
  have srt: "sorted_wrt (\<lambda>x y. \<not> compare c y x) (map ?val ?nodes)"
    using assms(2) by (simp add: inorder_traversal_def size_ea_def)
  have res: "last_left c v 1 0 = (case List.find ?P ?nodes of None \<Rightarrow> 0 | Some n \<Rightarrow> n)"
    by (rule last_left_find [OF nt srt])
  have node: "\<exists>j < length ?nodes. x = ?val (?nodes ! j)" if "x \<in> set ?a" for x
    using nth_as_node [OF that] by (simp add: size_ea_def)
  have both: "(last_left c v 1 0 = 0 \<longleftrightarrow> (\<forall>x \<in> set ?a. compare c x v)) \<and>
     (last_left c v 1 0 \<noteq> 0 \<longrightarrow> lower_bound_at c v (int (last_left c v 1 0) - 1))"
  proof (cases "List.find ?P ?nodes")
    case None
    then have all: "\<forall>n \<in> set ?nodes. compare c (?val n) v"
      by (auto simp: find_None_iff)
    have "compare c x v" if "x \<in> set ?a" for x
      using node [OF that] all by auto
    then show ?thesis using res None by simp
  next
    case (Some n)
    then obtain i where i: "i < length ?nodes" "?P (?nodes ! i)" "n = ?nodes ! i"
      and before: "\<forall>j < i. \<not> ?P (?nodes ! j)"
      unfolding find_Some_iff by blast
    have r: "last_left c v 1 0 = n" using res Some by simp
    have "n \<in> set ?nodes" using i by simp
    then have n: "1 \<le> n" "n \<le> ?N" using inorder_nodes_mem by blast+
    then have inset: "?val n \<in> set ?a" by (simp add: size_ea_def)
    have least: "\<not> compare c x (?val n)" if x: "x \<in> set ?a" "\<not> compare c x v" for x
    proof -
      obtain j where j: "j < length ?nodes" "x = ?val (?nodes ! j)"
        using node [OF x(1)] by blast
      have "\<not> j < i" using before x(2) j(2) by blast
      then consider "j = i" | "i < j" by linarith
      then show ?thesis
      proof cases
        case 1
        then show ?thesis using j(2) i(3) irr by simp
      next
        case 2
        then have "\<not> compare c (map ?val ?nodes ! j) (map ?val ?nodes ! i)"
          using sorted_wrt_nth_less [OF srt 2] j(1) by simp
        then show ?thesis using j i by simp
      qed
    qed
    have "lower_bound_at c v (int n - 1)"
      unfolding lower_bound_at_def using n i(2,3) least
      by (auto simp: nat_diff_distrib int_ops)
    moreover have "\<not> (\<forall>x \<in> set ?a. compare c x v)" using inset i(2,3) by blast
    ultimately show ?thesis using r n by simp
  qed
  from both show "last_left c v 1 0 = 0 \<longleftrightarrow> (\<forall>x \<in> set (array c). compare c x v)"
    and "last_left c v 1 0 \<noteq> 0 \<Longrightarrow> lower_bound_at c v (int (last_left c v 1 0) - 1)"
    by blast+
qed

lemma find_ea_index:
  "find_index c v = Some (Inr r) \<Longrightarrow> find_ea c v = Some (Inr (int r - 1))"
  by (simp add: find_ea_def begin_ea_def)

lemma constructed:
  assumes "length arr < 2 ^ 63"
  obtains c where "eytzinger_array arr cmp = Some (Inr c)" "compare c = cmp"
    "size_ea c = length arr" "inorder_traversal (array c) = std_sort cmp arr"
    "mset (array c) = mset arr"
proof -
  obtain layout where l: "make_eytzinger arr cmp = Some (Inr layout)"
    "length layout = length arr" "inorder_traversal layout = std_sort cmp arr"
    using make_eytzinger_layout [OF assms] by blast
  have "mset layout = mset arr"
    using mset_inorder_traversal [of layout] l(3) by (simp add: mset_std_sort)
  then show ?thesis
    using l that [of "\<lparr>compare = cmp, array = layout\<rparr>"]
    by (simp add: eytzinger_array_def size_ea_def)
qed

subsection \<open>Evaluation on concrete inputs\<close>

lemmas eval_simps = find_loop.simps breadth_first_copy.simps subscript_def ulong_def
  make_eytzinger_def eytzinger_array_def std_sort_def find_index_def find_ea_def begin_ea_def
  end_ea_def size_ea_def bit_not_def builtin_ffsl.simps Let_def

lemma strict_weak_order_less: "strict_weak_order ((<) :: 'a::linorder \<Rightarrow> 'a \<Rightarrow> bool)"
  by (auto simp: strict_weak_order_def)

lemma strict_weak_order_key:
  "strict_weak_order ((\<lambda>x y. fst x < fst y) :: 'a::linorder \<times> 'b \<Rightarrow> 'a \<times> 'b \<Rightarrow> bool)"
  by (auto simp: strict_weak_order_def)

subsection \<open>A constructed container and its search result\<close>

lemma constructed_search:
  assumes swo: "strict_weak_order cmp" and small: "Suc (length arr) < 2 ^ 62"
  obtains c where "eytzinger_array arr cmp = Some (Inr c)" "compare c = cmp"
    "size_ea c = length arr" "set (array c) = set arr"
    "inorder_traversal (array c) = std_sort cmp arr"
    "find_index c v = Some (Inr (last_left c v 1 0))"
    "find_ea c v = Some (Inr (int (last_left c v 1 0) - 1))"
    "last_left c v 1 0 = 0 \<longleftrightarrow> (\<forall>x \<in> set arr. cmp x v)"
    "last_left c v 1 0 \<noteq> 0 \<Longrightarrow> lower_bound_at c v (int (last_left c v 1 0) - 1)"
proof -
  have "length arr < 2 ^ 63" using small by simp
  then obtain c where c: "eytzinger_array arr cmp = Some (Inr c)" "compare c = cmp"
    "size_ea c = length arr" "inorder_traversal (array c) = std_sort cmp arr"
    "mset (array c) = mset arr"
    by (rule constructed)
  have set: "set (array c) = set arr" using c(5) by (rule mset_eq_setD)
  have swo': "strict_weak_order (compare c)" using swo c(2) by simp
  have srt: "sorted_wrt (\<lambda>x y. \<not> compare c y x) (inorder_traversal (array c))"
    using sorted_std_sort [OF swo, of arr] c(2,4) by simp
  have idx: "find_index c v = Some (Inr (last_left c v 1 0))"
    using small c(3) by (intro find_index_last_left) simp
  show ?thesis
    using that [OF c(1,2,3) set c(4) idx find_ea_index [OF idx]]
      search_miss [OF swo' srt, of v] set c(2) by simp
qed

lemma index_takeWhile:
  "x \<in> set xs \<Longrightarrow>
   length (takeWhile (\<lambda>n. n \<noteq> x) xs) < length xs \<and> xs ! length (takeWhile (\<lambda>n. n \<noteq> x) xs) = x"
  by (induction xs) auto

lemma inorder_rank_node:
  assumes "1 \<le> k" "k \<le> N"
  shows "inorder_rank N k < N" "inorder_nodes N 1 ! inorder_rank N k = k"
proof -
  have "k \<in> set (inorder_nodes N 1)" using assms unfolding inorder_nodes_set by simp
  from index_takeWhile [OF this]
  show "inorder_rank N k < N" "inorder_nodes N 1 ! inorder_rank N k = k"
    by (simp_all add: inorder_rank_def inorder_nodes_length del: One_nat_def)
qed

lemma inorder_rank_bij: "bij_betw (inorder_rank N) {1..N} {0..<N}"
proof -
  have inj: "inj_on (inorder_rank N) {1..N}"
  proof (rule inj_onI)
    fix k k' assume "k \<in> {1..N}" "k' \<in> {1..N}" "inorder_rank N k = inorder_rank N k'"
    then show "k = k'"
      using inorder_rank_node(2) [of k N] inorder_rank_node(2) [of k' N] by simp
  qed
  have sub: "inorder_rank N ` {1..N} \<subseteq> {0..<N}"
    using inorder_rank_node(1) by auto
  have "card (inorder_rank N ` {1..N}) = card {0..<N}"
    using inj by (simp add: card_image)
  then have "inorder_rank N ` {1..N} = {0..<N}"
    using sub by (intro card_subset_eq) simp_all
  then show ?thesis using inj by (simp add: bij_betw_def)
qed

section \<open>The claims\<close>

text \<open>
  In the theorems below \<open>cmp\<close> is the comparator, \<open>arr\<close> the input array and
  \<open>N = length arr\<close>. The bound \<open>Suc N < 2 ^ 62\<close> keeps every \<^verbatim>\<open>unsigned long\<close> of
  \<^verbatim>\<open>find\<close> below \<open>2 ^ 63 - 1\<close>, so that no sum wraps and the shift count stays below 64;
  \<open>N < 2 ^ 63\<close> holds for every array the platform admits. A result \<open>Some (Inr x)\<close>
  says that the code returns \<open>x\<close> without undefined behaviour.
\<close>

subsection \<open>C1: what \<^verbatim>\<open>find\<close> returns for a target between two elements\<close>

text \<open>
  As stated, C1 fails: \<^verbatim>\<open>find\<close> does not return the greatest stored element \<open>\<le> target\<close>.
  On the container built from \<open>{1, 3}\<close> the layout is \<open>[3, 1]\<close> and \<^verbatim>\<open>find(2)\<close> returns
  position 0, which holds 3, and not the position of 1.
\<close>

theorem find_between_counterexample:
  "eytzinger_array [1, 3 :: int] (<) = Some (Inr \<lparr>compare = (<), array = [3, 1]\<rparr>)
   \<and> find_ea \<lparr>compare = (<), array = [3, 1 :: int]\<rparr> 2 = Some (Inr 0)
   \<and> [3, 1 :: int] ! 0 = 3 \<and> \<not> (3 :: int) \<le> 2"
  by (simp add: eval_simps)

text \<open>
  C1 (amended). For every container built from a non-empty input and every target that
  is not greater than every stored element, \<^verbatim>\<open>find(target)\<close> returns the position of a
  least stored element that is not less than the target; in particular, for a target
  strictly between two elements \<open>a < target < b\<close> that are adjacent in sorted order, it
  returns a position holding \<open>b\<close> (an element equivalent to \<open>b\<close> under the comparator).
\<close>

theorem find_between:
  assumes "strict_weak_order cmp" and "Suc (length arr) < 2 ^ 62"
    and "\<exists>x \<in> set arr. \<not> cmp x v"
  shows "\<exists>c p. eytzinger_array arr cmp = Some (Inr c) \<and> find_ea c v = Some (Inr p)
           \<and> lower_bound_at c v p
           \<and> (\<forall>a \<in> set arr. \<forall>b \<in> set arr.
                 cmp a v \<and> cmp v b \<and> (\<forall>x \<in> set arr. \<not> (cmp a x \<and> cmp x b)) \<longrightarrow>
                 \<not> cmp (array c ! nat p) b \<and> \<not> cmp b (array c ! nat p))"
proof -
  obtain c where c: "eytzinger_array arr cmp = Some (Inr c)" "compare c = cmp"
    "size_ea c = length arr" "set (array c) = set arr"
    and ret: "find_ea c v = Some (Inr (int (last_left c v 1 0) - 1))"
    and miss: "last_left c v 1 0 = 0 \<longleftrightarrow> (\<forall>x \<in> set arr. cmp x v)"
    and hit: "last_left c v 1 0 \<noteq> 0 \<Longrightarrow> lower_bound_at c v (int (last_left c v 1 0) - 1)"
    using constructed_search [OF assms(1,2), of v] by metis
  let ?p = "int (last_left c v 1 0) - 1"
  let ?y = "array c ! nat ?p"
  have "last_left c v 1 0 \<noteq> 0" using miss assms(3) by blast
  then have lb: "lower_bound_at c v ?p" by (rule hit)
  have irr: "\<not> cmp x x" and trans: "cmp x y \<Longrightarrow> cmp y z \<Longrightarrow> cmp x z"
    and nt: "cmp x z \<Longrightarrow> cmp x y \<or> cmp y z" for x y z
    using assms(1) unfolding strict_weak_order_def by blast+
  have stored: "?y \<in> set arr"
    using lb c(3,4) unfolding lower_bound_at_def by (metis nth_mem nat_less_iff size_ea_def)
  have notless: "\<not> cmp ?y v" and least: "\<And>x. x \<in> set arr \<Longrightarrow> \<not> cmp x v \<Longrightarrow> \<not> cmp x ?y"
    using lb c(2,4) unfolding lower_bound_at_def by auto
  have "\<not> cmp ?y b \<and> \<not> cmp b ?y"
    if ab: "a \<in> set arr" "b \<in> set arr" "cmp a v" "cmp v b"
      "\<forall>x \<in> set arr. \<not> (cmp a x \<and> cmp x b)" for a b
  proof
    have "cmp a ?y" using nt [OF ab(3), of ?y] notless by blast
    then show "\<not> cmp ?y b" using ab(5) stored by blast
    have "\<not> cmp b v" using ab(4) irr trans by blast
    then show "\<not> cmp b ?y" using least ab(2) by blast
  qed
  then show ?thesis using c(1) ret lb by blast
qed

theorem find_between_witness:
  "strict_weak_order ((<) :: int \<Rightarrow> int \<Rightarrow> bool) \<and> Suc (length [1, 3 :: int]) < 2 ^ 62
   \<and> (\<exists>x \<in> set [1, 3 :: int]. \<not> x < 2)
   \<and> (1 :: int) \<in> set [1, 3] \<and> (3 :: int) \<in> set [1, 3] \<and> (1 :: int) < 2 \<and> (2 :: int) < 3
   \<and> \<not> (\<exists>x \<in> set [1, 3 :: int]. 1 < x \<and> x < 3)
   \<and> eytzinger_array [1, 3 :: int] (<) = Some (Inr \<lparr>compare = (<), array = [3, 1]\<rparr>)
   \<and> find_ea \<lparr>compare = (<), array = [3, 1 :: int]\<rparr> 2 = Some (Inr 0)
   \<and> lower_bound_at \<lparr>compare = (<), array = [3, 1 :: int]\<rparr> 2 0
   \<and> \<not> array \<lparr>compare = (<), array = [3, 1 :: int]\<rparr> ! nat 0 < 3
   \<and> \<not> 3 < array \<lparr>compare = (<), array = [3, 1 :: int]\<rparr> ! nat 0"
proof -
  let ?c = "\<lparr>compare = (<), array = [3, 1 :: int]\<rparr>"
  have h1: "strict_weak_order ((<) :: int \<Rightarrow> int \<Rightarrow> bool)" by (rule strict_weak_order_less)
  have h2: "Suc (length [1, 3 :: int]) < 2 ^ 62" by simp
  have h3: "\<exists>x \<in> set [1, 3 :: int]. \<not> x < 2" by simp
  have adj: "\<forall>x \<in> set [1, 3 :: int]. \<not> (1 < x \<and> x < 3)" by simp
  have mk: "eytzinger_array [1, 3 :: int] (<) = Some (Inr ?c)" by (simp add: eval_simps)
  have ret: "find_ea ?c 2 = Some (Inr 0)" by (simp add: eval_simps)
  from find_between [OF h1 h2 h3] mk ret
  have "lower_bound_at ?c 2 0"
    and "\<forall>a \<in> set [1, 3 :: int]. \<forall>b \<in> set [1, 3 :: int].
           a < 2 \<and> 2 < b \<and> (\<forall>x \<in> set [1, 3 :: int]. \<not> (a < x \<and> x < b)) \<longrightarrow>
           \<not> array ?c ! nat 0 < b \<and> \<not> b < array ?c ! nat 0"
    by auto
  then show ?thesis using h1 h2 h3 adj mk ret by simp
qed

subsection \<open>C2: an element of the input is found\<close>

text \<open>
  C2. For every input array and every element \<open>e\<close> of the input, \<^verbatim>\<open>find(e)\<close> on the
  constructed container returns a position \<open>p\<close> in \<open>[0, N)\<close> whose element is equivalent
  to \<open>e\<close>: neither is less than the other under the comparator.
\<close>

theorem find_present:
  assumes "strict_weak_order cmp" and "Suc (length arr) < 2 ^ 62" and "e \<in> set arr"
  shows "\<exists>c p. eytzinger_array arr cmp = Some (Inr c) \<and> find_ea c e = Some (Inr p)
           \<and> 0 \<le> p \<and> p < int (length arr)
           \<and> \<not> cmp (array c ! nat p) e \<and> \<not> cmp e (array c ! nat p)"
proof -
  obtain c where c: "eytzinger_array arr cmp = Some (Inr c)" "compare c = cmp"
    "size_ea c = length arr" "set (array c) = set arr"
    and ret: "find_ea c e = Some (Inr (int (last_left c e 1 0) - 1))"
    and miss: "last_left c e 1 0 = 0 \<longleftrightarrow> (\<forall>x \<in> set arr. cmp x e)"
    and hit: "last_left c e 1 0 \<noteq> 0 \<Longrightarrow> lower_bound_at c e (int (last_left c e 1 0) - 1)"
    using constructed_search [OF assms(1,2), of e] by metis
  have irr: "\<not> cmp e e" using assms(1) by (simp add: strict_weak_order_def)
  then have "last_left c e 1 0 \<noteq> 0" using miss assms(3) by blast
  then have lb: "lower_bound_at c e (int (last_left c e 1 0) - 1)" by (rule hit)
  let ?p = "int (last_left c e 1 0) - 1"
  have "e \<in> set (array c)" using assms(3) c(4) by simp
  then have "\<not> cmp e (array c ! nat ?p)"
    using lb irr c(2) unfolding lower_bound_at_def by blast
  moreover have "0 \<le> ?p" "?p < int (length arr)" "\<not> cmp (array c ! nat ?p) e"
    using lb c(2,3) unfolding lower_bound_at_def by simp_all
  ultimately show ?thesis using c(1) ret by blast
qed

theorem find_present_witness:
  "strict_weak_order ((<) :: int \<Rightarrow> int \<Rightarrow> bool) \<and> Suc (length [5, 3, 1, 4, 2 :: int]) < 2 ^ 62
   \<and> (4 :: int) \<in> set [5, 3, 1, 4, 2]
   \<and> eytzinger_array [5, 3, 1, 4, 2 :: int] (<) = Some (Inr \<lparr>compare = (<), array = [4, 2, 5, 1, 3]\<rparr>)
   \<and> find_ea \<lparr>compare = (<), array = [4, 2, 5, 1, 3 :: int]\<rparr> 4 = Some (Inr 0)
   \<and> (0 :: int) < int (length [5, 3, 1, 4, 2 :: int])
   \<and> \<not> array \<lparr>compare = (<), array = [4, 2, 5, 1, 3 :: int]\<rparr> ! nat 0 < 4
   \<and> \<not> 4 < array \<lparr>compare = (<), array = [4, 2, 5, 1, 3 :: int]\<rparr> ! nat 0"
proof -
  let ?c = "\<lparr>compare = (<), array = [4, 2, 5, 1, 3 :: int]\<rparr>"
  have h1: "strict_weak_order ((<) :: int \<Rightarrow> int \<Rightarrow> bool)" by (rule strict_weak_order_less)
  have h2: "Suc (length [5, 3, 1, 4, 2 :: int]) < 2 ^ 62" by simp
  have h3: "(4 :: int) \<in> set [5, 3, 1, 4, 2]" by simp
  have mk: "eytzinger_array [5, 3, 1, 4, 2 :: int] (<) = Some (Inr ?c)"
    by (simp add: eval_simps)
  have ret: "find_ea ?c 4 = Some (Inr 0)" by (simp add: eval_simps)
  from find_present [OF h1 h2 h3] mk ret
  have "(0 :: int) < int (length [5, 3, 1, 4, 2 :: int])"
    "\<not> array ?c ! nat 0 < 4" "\<not> 4 < array ?c ! nat 0"
    by auto
  then show ?thesis using h1 h2 h3 mk ret by simp
qed

subsection \<open>C3: the in-order traversal of the layout\<close>

text \<open>
  C3. For every input array, the in-order traversal of the constructed layout, read as
  an implicit binary tree (node \<open>k\<close> between the subtrees rooted at \<open>2k\<close> and \<open>2k + 1\<close>),
  is the input sorted under the comparator; hence the layout is a permutation of the
  input.
\<close>

theorem inorder_is_sorted_input:
  assumes "strict_weak_order cmp" and "length arr < 2 ^ 63"
  shows "\<exists>layout. make_eytzinger arr cmp = Some (Inr layout)
           \<and> length layout = length arr
           \<and> inorder_traversal layout = std_sort cmp arr
           \<and> sorted_wrt (\<lambda>x y. \<not> cmp y x) (inorder_traversal layout)
           \<and> mset (inorder_traversal layout) = mset arr
           \<and> mset layout = mset arr"
proof -
  obtain layout where l: "make_eytzinger arr cmp = Some (Inr layout)"
    "length layout = length arr" "inorder_traversal layout = std_sort cmp arr"
    using make_eytzinger_layout [OF assms(2)] by blast
  have "sorted_wrt (\<lambda>x y. \<not> cmp y x) (inorder_traversal layout)"
    using sorted_std_sort [OF assms(1)] l(3) by simp
  moreover have "mset (inorder_traversal layout) = mset arr"
    using l(3) by (simp add: mset_std_sort)
  moreover have "mset layout = mset arr"
    using mset_inorder_traversal [of layout] l(3) by (simp add: mset_std_sort)
  ultimately show ?thesis using l by blast
qed

theorem inorder_is_sorted_input_witness:
  "strict_weak_order ((<) :: int \<Rightarrow> int \<Rightarrow> bool) \<and> length [5, 3, 1, 4, 2 :: int] < 2 ^ 63
   \<and> make_eytzinger [5, 3, 1, 4, 2 :: int] (<) = Some (Inr [4, 2, 5, 1, 3])
   \<and> inorder_traversal [4, 2, 5, 1, 3 :: int] = [1, 2, 3, 4, 5]
   \<and> std_sort (<) [5, 3, 1, 4, 2 :: int] = [1, 2, 3, 4, 5]
   \<and> mset [4, 2, 5, 1, 3 :: int] = mset [5, 3, 1, 4, 2]"
proof -
  have h1: "strict_weak_order ((<) :: int \<Rightarrow> int \<Rightarrow> bool)" by (rule strict_weak_order_less)
  have h2: "length [5, 3, 1, 4, 2 :: int] < 2 ^ 63" by simp
  have mk: "make_eytzinger [5, 3, 1, 4, 2 :: int] (<) = Some (Inr [4, 2, 5, 1, 3])"
    by (simp add: eval_simps)
  have srt: "std_sort (<) [5, 3, 1, 4, 2 :: int] = [1, 2, 3, 4, 5]"
    by (simp add: std_sort_def)
  from inorder_is_sorted_input [OF h1 h2] mk srt
  have "inorder_traversal [4, 2, 5, 1, 3 :: int] = [1, 2, 3, 4, 5]"
    and "mset [4, 2, 5, 1, 3 :: int] = mset [5, 3, 1, 4, 2]"
    by auto
  then show ?thesis using h1 h2 mk srt by simp
qed

subsection \<open>C4: when the corrected index is 0\<close>

text \<open>
  As stated, C4 fails: for a target smaller than every stored element the descent goes
  left at every node, and the corrected index is the leftmost node. On the container
  \<open>{1}\<close>, \<^verbatim>\<open>find(0)\<close> has corrected index 1 and returns position 0, not the end position 1.
\<close>

theorem corrected_index_counterexample:
  "(0 :: int) < 1
   \<and> find_index \<lparr>compare = (<), array = [1 :: int]\<rparr> 0 = Some (Inr 1)
   \<and> find_ea \<lparr>compare = (<), array = [1 :: int]\<rparr> 0 = Some (Inr 0)
   \<and> end_ea \<lparr>compare = (<), array = [1 :: int]\<rparr> = 1"
  by (simp add: eval_simps)

text \<open>
  C4 (amended). For every container and every target, the corrected index computed by
  \<^verbatim>\<open>find\<close> is 0 exactly when the target is strictly greater than every stored element,
  that is when \<open>cmp x target\<close> holds for all stored \<open>x\<close>.
\<close>

theorem corrected_index_zero_iff:
  assumes "strict_weak_order cmp" and "Suc (length arr) < 2 ^ 62"
  shows "\<exists>c r. eytzinger_array arr cmp = Some (Inr c) \<and> find_index c v = Some (Inr r)
           \<and> (r = 0 \<longleftrightarrow> (\<forall>x \<in> set arr. cmp x v))"
proof -
  obtain c where "eytzinger_array arr cmp = Some (Inr c)"
    "find_index c v = Some (Inr (last_left c v 1 0))"
    "last_left c v 1 0 = 0 \<longleftrightarrow> (\<forall>x \<in> set arr. cmp x v)"
    using constructed_search [OF assms, of v] by metis
  then show ?thesis by (intro exI [of _ c] exI [of _ "last_left c v 1 0"]) simp
qed

theorem corrected_index_zero_iff_witness:
  "strict_weak_order ((<) :: int \<Rightarrow> int \<Rightarrow> bool) \<and> Suc (length [1 :: int]) < 2 ^ 62
   \<and> eytzinger_array [1 :: int] (<) = Some (Inr \<lparr>compare = (<), array = [1]\<rparr>)
   \<and> find_index \<lparr>compare = (<), array = [1 :: int]\<rparr> 2 = Some (Inr 0)
   \<and> list_all (\<lambda>x. x < 2) [1 :: int]
   \<and> find_index \<lparr>compare = (<), array = [1 :: int]\<rparr> 0 = Some (Inr 1)
   \<and> \<not> list_all (\<lambda>x. x < 0) [1 :: int]"
proof -
  let ?c = "\<lparr>compare = (<), array = [1 :: int]\<rparr>"
  have h1: "strict_weak_order ((<) :: int \<Rightarrow> int \<Rightarrow> bool)" by (rule strict_weak_order_less)
  have h2: "Suc (length [1 :: int]) < 2 ^ 62" by simp
  have mk: "eytzinger_array [1 :: int] (<) = Some (Inr ?c)" by (simp add: eval_simps)
  have i2: "find_index ?c 2 = Some (Inr 0)" and i0: "find_index ?c 0 = Some (Inr 1)"
    by (simp_all add: eval_simps)
  from corrected_index_zero_iff [OF h1 h2, of 2] mk i2
  have a: "\<forall>x \<in> set [1 :: int]. x < 2" by auto
  from corrected_index_zero_iff [OF h1 h2, of 0] mk i0
  have b: "\<not> (\<forall>x \<in> set [1 :: int]. x < 0)" by auto
  show ?thesis using h1 h2 mk i2 i0 a b by (simp add: list_all_iff)
qed

subsection \<open>C5: the iterator returned on a miss\<close>

text \<open>
  C5 says that \<^verbatim>\<open>find\<close> returns \<^verbatim>\<open>end()\<close> when the corrected index is 0. The code returns
  \<^verbatim>\<open>cbegin() + 0 - 1\<close>: on the container \<open>{1}\<close>, \<^verbatim>\<open>find(2)\<close> has corrected index 0 and
  returns the offset \<open>- 1\<close>, while \<^verbatim>\<open>end()\<close> is the offset 1.
\<close>

theorem find_miss_before_begin:
  "eytzinger_array [1 :: int] (<) = Some (Inr \<lparr>compare = (<), array = [1]\<rparr>)
   \<and> find_index \<lparr>compare = (<), array = [1 :: int]\<rparr> 2 = Some (Inr 0)
   \<and> find_ea \<lparr>compare = (<), array = [1 :: int]\<rparr> 2 = Some (Inr (- 1))
   \<and> end_ea \<lparr>compare = (<), array = [1 :: int]\<rparr> = 1"
  by (simp add: eval_simps)

subsection \<open>C6: lower bound and the last left turn\<close>

text \<open>
  C6. For every container whose comparator is a strict weak order (a total order is
  one) and every target \<open>v\<close> such that some stored element is not less than \<open>v\<close>,
  \<^verbatim>\<open>find(v)\<close> returns the position of a least stored element that is not less than \<open>v\<close>,
  and the corrected index it computes is the tree index of the last node at which the
  descent went left.
\<close>

theorem find_lower_bound_last_left:
  assumes "strict_weak_order cmp" and "Suc (length arr) < 2 ^ 62"
    and "\<exists>x \<in> set arr. \<not> cmp x v"
  shows "\<exists>c r. eytzinger_array arr cmp = Some (Inr c)
           \<and> find_index c v = Some (Inr r) \<and> r = last_left c v 1 0
           \<and> find_ea c v = Some (Inr (int r - 1))
           \<and> lower_bound_at c v (int r - 1)"
proof -
  obtain c where c: "eytzinger_array arr cmp = Some (Inr c)"
    and idx: "find_index c v = Some (Inr (last_left c v 1 0))"
    and ret: "find_ea c v = Some (Inr (int (last_left c v 1 0) - 1))"
    and miss: "last_left c v 1 0 = 0 \<longleftrightarrow> (\<forall>x \<in> set arr. cmp x v)"
    and hit: "last_left c v 1 0 \<noteq> 0 \<Longrightarrow> lower_bound_at c v (int (last_left c v 1 0) - 1)"
    using constructed_search [OF assms(1,2), of v] by metis
  have "last_left c v 1 0 \<noteq> 0" using miss assms(3) by blast
  then have "lower_bound_at c v (int (last_left c v 1 0) - 1)" by (rule hit)
  then show ?thesis using c idx ret by blast
qed

theorem find_lower_bound_last_left_witness:
  "strict_weak_order ((<) :: int \<Rightarrow> int \<Rightarrow> bool) \<and> Suc (length [10, 30, 20 :: int]) < 2 ^ 62
   \<and> (\<exists>x \<in> set [10, 30, 20 :: int]. \<not> x < 15)
   \<and> eytzinger_array [10, 30, 20 :: int] (<) = Some (Inr \<lparr>compare = (<), array = [20, 10, 30]\<rparr>)
   \<and> find_index \<lparr>compare = (<), array = [20, 10, 30 :: int]\<rparr> 15 = Some (Inr 1)
   \<and> last_left \<lparr>compare = (<), array = [20, 10, 30 :: int]\<rparr> 15 1 0 = 1
   \<and> find_ea \<lparr>compare = (<), array = [20, 10, 30 :: int]\<rparr> 15 = Some (Inr 0)
   \<and> lower_bound_at \<lparr>compare = (<), array = [20, 10, 30 :: int]\<rparr> 15 0"
proof -
  let ?c = "\<lparr>compare = (<), array = [20, 10, 30 :: int]\<rparr>"
  have h1: "strict_weak_order ((<) :: int \<Rightarrow> int \<Rightarrow> bool)" by (rule strict_weak_order_less)
  have h2: "Suc (length [10, 30, 20 :: int]) < 2 ^ 62" by simp
  have h3: "\<exists>x \<in> set [10, 30, 20 :: int]. \<not> x < 15" by simp
  have mk: "eytzinger_array [10, 30, 20 :: int] (<) = Some (Inr ?c)"
    by (simp add: eval_simps)
  have idx: "find_index ?c 15 = Some (Inr 1)" by (simp add: eval_simps)
  from find_lower_bound_last_left [OF h1 h2 h3] mk idx
  have "last_left ?c 15 1 0 = 1" "find_ea ?c 15 = Some (Inr 0)" "lower_bound_at ?c 15 0"
    by auto
  then show ?thesis using h1 h2 h3 mk idx by simp
qed

subsection \<open>C7: the input \<open>{5, 3, 1, 4, 2}\<close>\<close>

text \<open>
  As stated, C7 fails: the layout of \<open>{5, 3, 1, 4, 2}\<close> is \<open>[4, 2, 5, 1, 3]\<close>, not
  \<open>[3, 2, 5, 1, 4]\<close>, and \<^verbatim>\<open>find(5)\<close> returns the offset 2, not 4.
\<close>

theorem layout_5_counterexample:
  "eytzinger_array [5, 3, 1, 4, 2 :: int] (<) = Some (Inr \<lparr>compare = (<), array = [4, 2, 5, 1, 3]\<rparr>)
   \<and> [4, 2, 5, 1, 3] \<noteq> [3, 2, 5, 1, 4 :: int]
   \<and> find_ea \<lparr>compare = (<), array = [4, 2, 5, 1, 3 :: int]\<rparr> 5 = Some (Inr 2)
   \<and> (2 :: int) \<noteq> 4"
  by (simp add: eval_simps)

text \<open>
  C7 (amended). For the input \<open>{5, 3, 1, 4, 2}\<close> with the default ascending comparator,
  construction produces the layout (1-based tree index to value) 1:4, 2:2, 3:5, 4:1, 5:3.
\<close>

theorem layout_5:
  "eytzinger_array [5, 3, 1, 4, 2 :: int] (<) = Some (Inr \<lparr>compare = (<), array = [4, 2, 5, 1, 3]\<rparr>)"
  by (simp add: eval_simps)

subsection \<open>C8: the buffer in array order\<close>

text \<open>
  As stated, C8 fails: the buffer read from position 0 to \<open>N - 1\<close> is not the sorted
  input. The input \<open>{1, 2, 3}\<close> gives the buffer \<open>[2, 1, 3]\<close>.
\<close>

theorem level_order_counterexample:
  "make_eytzinger [1, 2, 3 :: int] (<) = Some (Inr [2, 1, 3])
   \<and> std_sort (<) [1, 2, 3 :: int] = [1, 2, 3]
   \<and> [2, 1, 3] \<noteq> [1, 2, 3 :: int]"
  by (simp add: eval_simps)

text \<open>
  C8 (amended). For every input array of \<open>N\<close> elements, the built buffer read in array
  order is the sorted input permuted by the Eytzinger index mapping: position \<open>k - 1\<close>
  holds the sorted element whose 0-based rank is the number of nodes that the in-order
  traversal of the implicit tree on \<open>1 \<dots> N\<close> visits before node \<open>k\<close>; this rank is a
  bijection from the tree indices \<open>1 \<dots> N\<close> onto \<open>0 \<dots> N - 1\<close>.
\<close>

theorem layout_by_inorder_rank:
  assumes "length arr < 2 ^ 63"
  shows "\<exists>layout. make_eytzinger arr cmp = Some (Inr layout)
           \<and> layout = map (\<lambda>k. std_sort cmp arr ! inorder_rank (length arr) k) [1..<Suc (length arr)]
           \<and> bij_betw (inorder_rank (length arr)) {1..length arr} {0..<length arr}"
proof -
  let ?N = "length arr"
  let ?nodes = "inorder_nodes ?N 1"
  obtain layout where l: "make_eytzinger arr cmp = Some (Inr layout)"
    "length layout = ?N" "inorder_traversal layout = std_sort cmp arr"
    using make_eytzinger_layout [OF assms] by blast
  have "layout = map (\<lambda>k. std_sort cmp arr ! inorder_rank ?N k) [1..<Suc ?N]"
  proof (rule nth_equalityI)
    show "length layout = length (map (\<lambda>k. std_sort cmp arr ! inorder_rank ?N k) [1..<Suc ?N])"
      using l(2) by (simp del: upt_Suc)
  next
    fix p assume "p < length layout"
    then have p: "p < ?N" using l(2) by simp
    then have r: "inorder_rank ?N (Suc p) < ?N" "?nodes ! inorder_rank ?N (Suc p) = Suc p"
      using inorder_rank_node [of "Suc p" ?N] by simp_all
    have "std_sort cmp arr ! inorder_rank ?N (Suc p) =
            map (\<lambda>k. layout ! (k - 1)) ?nodes ! inorder_rank ?N (Suc p)"
      using l(2,3) by (simp add: inorder_traversal_def del: One_nat_def)
    also have "\<dots> = layout ! p"
      using r by (simp add: inorder_nodes_length del: One_nat_def)
    finally show "layout ! p = map (\<lambda>k. std_sort cmp arr ! inorder_rank ?N k) [1..<Suc ?N] ! p"
      using p by (simp del: upt_Suc)
  qed
  then show ?thesis using l(1) inorder_rank_bij by blast
qed

theorem layout_by_inorder_rank_witness:
  "length [1, 2, 3 :: int] < 2 ^ 63
   \<and> make_eytzinger [1, 2, 3 :: int] (<) = Some (Inr [2, 1, 3])
   \<and> std_sort (<) [1, 2, 3 :: int] = [1, 2, 3]
   \<and> map (inorder_rank 3) [1, 2, 3] = [1, 0, 2]
   \<and> [2, 1, 3 :: int] = map (\<lambda>k. [1, 2, 3] ! inorder_rank 3 k) [1, 2, 3]
   \<and> bij_betw (inorder_rank 3) {1..3} {0..<3}"
proof -
  have h: "length [1, 2, 3 :: int] < 2 ^ 63" by simp
  have mk: "make_eytzinger [1, 2, 3 :: int] (<) = Some (Inr [2, 1, 3])"
    by (simp add: eval_simps)
  have srt: "std_sort (<) [1, 2, 3 :: int] = [1, 2, 3]" by (simp add: std_sort_def)
  have nodes: "inorder_nodes 3 1 = [2, 1, 3]"
    by (simp add: inorder_nodes.simps)
  have ranks: "map (inorder_rank 3) [1, 2, 3] = [1, 0, 2]"
    by (simp add: inorder_rank_def nodes del: One_nat_def)
  have len: "length [1, 2, 3 :: int] = 3" by simp
  have "bij_betw (inorder_rank 3) {1..3} {0..<3}"
    using layout_by_inorder_rank [OF h, of "(<)"] unfolding len by blast
  then show ?thesis using h mk srt ranks by simp
qed

subsection \<open>C9: the reads of the descent loop\<close>

text \<open>
  C9. For every container of any size (also \<open>N = 0\<close>), whatever its contents, and every
  target, the descent loop of \<^verbatim>\<open>find\<close> runs to its exit without the error \<open>OutOfRange\<close>:
  every subscript it evaluates is a position in \<open>[0, N)\<close>.
\<close>

theorem find_loop_reads_in_range:
  assumes "size_ea c < 2 ^ 63"
  shows "\<exists>k. find_loop c v 1 = Some (Inr k) \<and> size_ea c < k"
proof -
  have "find_loop c v 1 = Some (Inr (walk c v 1))"
    using assms by (intro find_loop_walk) simp_all
  moreover have "size_ea c < walk c v 1" using walk_exit [of 1 c v] by simp
  ultimately show ?thesis by blast
qed

theorem find_loop_reads_in_range_witness:
  "size_ea \<lparr>compare = (<), array = [] :: int list\<rparr> < 2 ^ 63
   \<and> find_loop \<lparr>compare = (<), array = [] :: int list\<rparr> 7 1 = Some (Inr 1)
   \<and> size_ea \<lparr>compare = (<), array = [4, 2, 5, 1, 3 :: int]\<rparr> < 2 ^ 63
   \<and> find_loop \<lparr>compare = (<), array = [4, 2, 5, 1, 3 :: int]\<rparr> 5 1 = Some (Inr 6)"
proof -
  let ?e = "\<lparr>compare = (<), array = [] :: int list\<rparr>"
  let ?c = "\<lparr>compare = (<), array = [4, 2, 5, 1, 3 :: int]\<rparr>"
  have h0: "size_ea ?e < 2 ^ 63" and h5: "size_ea ?c < 2 ^ 63" by (simp_all add: size_ea_def)
  obtain k where k: "find_loop ?e 7 1 = Some (Inr k)"
    using find_loop_reads_in_range [OF h0, of 7] by blast
  obtain k' where k': "find_loop ?c 5 1 = Some (Inr k')"
    using find_loop_reads_in_range [OF h5, of 5] by blast
  have "find_loop ?e 7 1 = Some (Inr 1)" "find_loop ?c 5 1 = Some (Inr 6)"
    by (simp_all add: eval_simps)
  then show ?thesis using h0 h5 k k' by simp
qed

subsection \<open>C10: when the layout depends on the multiset of the input only\<close>

text \<open>
  As stated, C10 fails for a comparator under which distinct values are equivalent.
  With pairs compared by their first component, the arrays
  \<open>{(1,10), (1,20), (1,20), (1,10)}\<close> and \<open>{(1,20), (1,10), (1,10), (1,20)}\<close> are
  permutations of each other; sorting moves nothing in either, and the layouts differ.
\<close>

theorem layout_determined_counterexample:
  "strict_weak_order ((\<lambda>x y. fst x < fst y) :: int \<times> int \<Rightarrow> int \<times> int \<Rightarrow> bool)
   \<and> mset [(1, 10), (1, 20), (1, 20), (1, 10) :: int \<times> int] = mset [(1, 20), (1, 10), (1, 10), (1, 20)]
   \<and> make_eytzinger [(1, 10), (1, 20), (1, 20), (1, 10) :: int \<times> int] (\<lambda>x y. fst x < fst y)
       = Some (Inr [(1, 20), (1, 20), (1, 10), (1, 10)])
   \<and> make_eytzinger [(1, 20), (1, 10), (1, 10), (1, 20) :: int \<times> int] (\<lambda>x y. fst x < fst y)
       = Some (Inr [(1, 10), (1, 10), (1, 20), (1, 20)])
   \<and> [(1, 20), (1, 20), (1, 10), (1, 10)] \<noteq> [(1, 10), (1, 10), (1, 20), (1, 20) :: int \<times> int]"
  by (simp add: eval_simps strict_weak_order_key)

text \<open>
  C10 (amended). For a strict weak order comparator and an input in which no two
  distinct values are equivalent under it (every input, when the comparator is a total
  order), the constructed layout is a function of the multiset of the input values and
  \<open>N\<close>: every array that is a permutation of the input is given the same layout.
\<close>

theorem layout_determined_by_multiset:
  assumes "strict_weak_order cmp" and "mset arr = mset arr'" and "length arr < 2 ^ 63"
    and "\<forall>x \<in> set arr. \<forall>y \<in> set arr. \<not> cmp x y \<and> \<not> cmp y x \<longrightarrow> x = y"
  shows "\<exists>layout. make_eytzinger arr cmp = Some (Inr layout)
           \<and> make_eytzinger arr' cmp = Some (Inr layout)
           \<and> eytzinger_array arr' cmp = eytzinger_array arr cmp"
proof -
  have "std_sort cmp arr = std_sort cmp arr'"
    using assms(1,2,4) by (rule std_sort_permutation)
  moreover have "length arr = length arr'"
    using assms(2) by (rule mset_eq_length)
  ultimately have "make_eytzinger arr cmp = make_eytzinger arr' cmp"
    by (simp add: make_eytzinger_def)
  then show ?thesis
    using make_eytzinger_layout [OF assms(3), of cmp] by (auto simp: eytzinger_array_def)
qed

theorem layout_determined_by_multiset_witness:
  "strict_weak_order ((<) :: int \<Rightarrow> int \<Rightarrow> bool)
   \<and> mset [5, 3, 1, 4, 2 :: int] = mset [2, 4, 1, 3, 5] \<and> length [5, 3, 1, 4, 2 :: int] < 2 ^ 63
   \<and> \<not> (\<exists>x \<in> set [5, 3, 1, 4, 2 :: int]. \<exists>y \<in> set [5, 3, 1, 4, 2]. \<not> x < y \<and> \<not> y < x \<and> x \<noteq> y)
   \<and> make_eytzinger [5, 3, 1, 4, 2 :: int] (<) = Some (Inr [4, 2, 5, 1, 3])
   \<and> make_eytzinger [2, 4, 1, 3, 5 :: int] (<) = Some (Inr [4, 2, 5, 1, 3])
   \<and> strict_weak_order ((\<lambda>x y. fst x < fst y) :: int \<times> int \<Rightarrow> int \<times> int \<Rightarrow> bool)
   \<and> mset [(2, 10), (1, 20) :: int \<times> int] = mset [(1, 20), (2, 10)]
   \<and> length [(2, 10), (1, 20) :: int \<times> int] < 2 ^ 63
   \<and> \<not> (\<exists>x \<in> set [(2, 10), (1, 20) :: int \<times> int]. \<exists>y \<in> set [(2, 10), (1, 20)].
           \<not> fst x < fst y \<and> \<not> fst y < fst x \<and> x \<noteq> y)
   \<and> make_eytzinger [(2, 10), (1, 20) :: int \<times> int] (\<lambda>x y. fst x < fst y)
       = Some (Inr [(2, 10), (1, 20)])
   \<and> make_eytzinger [(1, 20), (2, 10) :: int \<times> int] (\<lambda>x y. fst x < fst y)
       = Some (Inr [(2, 10), (1, 20)])"
proof -
  let ?key = "(\<lambda>x y. fst x < fst y) :: int \<times> int \<Rightarrow> int \<times> int \<Rightarrow> bool"
  have h1: "strict_weak_order ((<) :: int \<Rightarrow> int \<Rightarrow> bool)" by (rule strict_weak_order_less)
  have h2: "mset [5, 3, 1, 4, 2 :: int] = mset [2, 4, 1, 3, 5]" by simp
  have h3: "length [5, 3, 1, 4, 2 :: int] < 2 ^ 63" by simp
  have h4: "\<forall>x \<in> set [5, 3, 1, 4, 2 :: int]. \<forall>y \<in> set [5, 3, 1, 4, 2].
              \<not> x < y \<and> \<not> y < x \<longrightarrow> x = y"
    by simp
  have mk: "make_eytzinger [5, 3, 1, 4, 2 :: int] (<) = Some (Inr [4, 2, 5, 1, 3])"
    by (simp add: eval_simps)
  from layout_determined_by_multiset [OF h1 h2 h3 h4] mk
  have r: "make_eytzinger [2, 4, 1, 3, 5 :: int] (<) = Some (Inr [4, 2, 5, 1, 3])" by auto
  have k1: "strict_weak_order ?key" by (rule strict_weak_order_key)
  have k2: "mset [(2, 10), (1, 20) :: int \<times> int] = mset [(1, 20), (2, 10)]" by simp
  have k3: "length [(2, 10), (1, 20) :: int \<times> int] < 2 ^ 63" by simp
  have k4: "\<forall>x \<in> set [(2, 10), (1, 20) :: int \<times> int]. \<forall>y \<in> set [(2, 10), (1, 20)].
              \<not> fst x < fst y \<and> \<not> fst y < fst x \<longrightarrow> x = y"
    by simp
  have mk': "make_eytzinger [(2, 10), (1, 20) :: int \<times> int] ?key = Some (Inr [(2, 10), (1, 20)])"
    by (simp add: eval_simps)
  from layout_determined_by_multiset [OF k1 k2 k3 k4] mk'
  have r': "make_eytzinger [(1, 20), (2, 10) :: int \<times> int] ?key = Some (Inr [(2, 10), (1, 20)])"
    by auto
  have n4: "\<not> (\<exists>x \<in> set [5, 3, 1, 4, 2 :: int]. \<exists>y \<in> set [5, 3, 1, 4, 2]. \<not> x < y \<and> \<not> y < x \<and> x \<noteq> y)"
    using h4 by blast
  have n4': "\<not> (\<exists>x \<in> set [(2, 10), (1, 20) :: int \<times> int]. \<exists>y \<in> set [(2, 10), (1, 20)].
           \<not> fst x < fst y \<and> \<not> fst y < fst x \<and> x \<noteq> y)"
    using k4 by blast
  show ?thesis
    by (intro conjI h1 h2 h3 n4 mk r k1 k2 k3 n4' mk' r')
qed

end
